theory Spec2Isabelle
  imports Complex_Main
begin

section \<open>Student Record Manager: values, dictionaries and strings\<close>

text \<open>
  The store of \<open>StudentRecordManager\<close> is a Python \<open>dict\<close> from identifier strings to
  record dicts, and a record is a \<open>dict\<close> from field names to values. The values that the
  JSON backing file and the command-line layer put into a record are \<open>None\<close>, booleans,
  integers and strings; floats are not part of this development. Strings are lists of
  8-bit characters: the code points below 256.

  A Python dict keeps its keys in insertion order, so a dict is an association list whose
  keys are pairwise distinct.
\<close>

datatype pyval = PNone | PBool bool | PInt int | PStr string

datatype py_error = ValueError | KeyError | TypeError | JSONDecodeError | RecursionError

type_synonym student = "(string \<times> pyval) list"
type_synonym store = "(string \<times> student) list"

subsection \<open>Dictionary operations\<close>

text \<open>\<open>d[k] = v\<close>: an existing key keeps its position, a new key goes to the end.\<close>

fun dict_set :: "'k \<Rightarrow> 'v \<Rightarrow> ('k \<times> 'v) list \<Rightarrow> ('k \<times> 'v) list" where
  "dict_set k v [] = [(k, v)]"
| "dict_set k v ((k', v') # d) = (if k' = k then (k, v) # d else (k', v') # dict_set k v d)"

text \<open>\<open>del d[k]\<close>, for a key that is present.\<close>

fun dict_del :: "'k \<Rightarrow> ('k \<times> 'v) list \<Rightarrow> ('k \<times> 'v) list" where
  "dict_del k [] = []"
| "dict_del k ((k', v') # d) = (if k' = k then d else (k', v') # dict_del k d)"

definition dict_has :: "'k \<Rightarrow> ('k \<times> 'v) list \<Rightarrow> bool" where
  "dict_has k d = (map_of d k \<noteq> None)"

definition dict_values :: "('k \<times> 'v) list \<Rightarrow> 'v list" where
  "dict_values d = map snd d"

definition dict_keys :: "('k \<times> 'v) list \<Rightarrow> 'k list" where
  "dict_keys d = map fst d"

subsection \<open>Python's view of values\<close>

text \<open>Truthiness, as tested by \<open>if value\<close>.\<close>

fun truthy :: "pyval \<Rightarrow> bool" where
  "truthy PNone = False"
| "truthy (PBool b) = b"
| "truthy (PInt i) = (i \<noteq> 0)"
| "truthy (PStr s) = (s \<noteq> [])"

text \<open>\<open>a == b\<close>: booleans are the integers 0 and 1, everything else compares by type.\<close>

fun py_eq :: "pyval \<Rightarrow> pyval \<Rightarrow> bool" where
  "py_eq PNone PNone = True"
| "py_eq (PBool a) (PBool b) = (a = b)"
| "py_eq (PBool a) (PInt i) = ((if a then 1 else 0) = i)"
| "py_eq (PInt i) (PBool b) = (i = (if b then 1 else 0))"
| "py_eq (PInt i) (PInt j) = (i = j)"
| "py_eq (PStr s) (PStr t) = (s = t)"
| "py_eq _ _ = False"

fun isinstance_str :: "pyval \<Rightarrow> bool" where
  "isinstance_str (PStr s) = True"
| "isinstance_str _ = False"

subsection \<open>Decimal text of integers\<close>

definition digit_char :: "nat \<Rightarrow> char" where
  "digit_char d = char_of (48 + d)"

fun str_nat :: "nat \<Rightarrow> string" where
  "str_nat n = (if n < 10 then [digit_char n] else str_nat (n div 10) @ [digit_char (n mod 10)])"

declare str_nat.simps [simp del]

definition str_int :: "int \<Rightarrow> string" where
  "str_int i = (if i < 0 then CHR ''-'' # str_nat (nat (- i)) else str_nat (nat i))"

text \<open>\<open>str(v)\<close>.\<close>

fun py_str :: "pyval \<Rightarrow> string" where
  "py_str PNone = ''None''"
| "py_str (PBool b) = (if b then ''True'' else ''False'')"
| "py_str (PInt i) = str_int i"
| "py_str (PStr s) = s"

subsection \<open>Strings\<close>

text \<open>
  \<open>s.lower()\<close>: the capital letters below 256 are \<open>A\<close> to \<open>Z\<close> and the code points
  192 to 222 without the multiplication sign 215; each has its small letter 32 above.
\<close>

definition lower_char :: "char \<Rightarrow> char" where
  "lower_char c =
     (let n = (of_char c :: nat)
      in if (65 \<le> n \<and> n \<le> 90) \<or> (192 \<le> n \<and> n \<le> 222 \<and> n \<noteq> 215) then char_of (n + 32)
         else c)"

definition lower :: "string \<Rightarrow> string" where
  "lower s = map lower_char s"

text \<open>\<open>a in b\<close> for strings: \<open>a\<close> occurs in \<open>b\<close> as a contiguous substring.\<close>

fun is_prefix :: "'a list \<Rightarrow> 'a list \<Rightarrow> bool" where
  "is_prefix [] ys = True"
| "is_prefix (x # xs) [] = False"
| "is_prefix (x # xs) (y # ys) = (x = y \<and> is_prefix xs ys)"

fun str_in :: "'a list \<Rightarrow> 'a list \<Rightarrow> bool" where
  "str_in a [] = (a = [])"
| "str_in a (y # ys) = (is_prefix a (y # ys) \<or> str_in a ys)"

section \<open>Searching\<close>

text \<open>
  \<open>search_students(**criteria)\<close>. The inner loop over the criteria leaves with
  \<open>match = False\<close> at the first criterion that rejects the record; \<open>student_matches\<close> is
  the value of \<open>match\<close> after that loop. A criterion is looked at only when its key is a
  field of the record and its value is truthy. For such a criterion the first test rejects
  the record when the value is a string that does not occur, case-insensitively, in the
  text of the field; when that test does not reject, the \<open>elif\<close> runs and rejects the
  record unless the field equals the value.
\<close>

fun student_matches :: "student \<Rightarrow> (string \<times> pyval) list \<Rightarrow> bool" where
  "student_matches s [] = True"
| "student_matches s ((key, val) # cs) =
     (case map_of s key of
        None \<Rightarrow> student_matches s cs
      | Some fv \<Rightarrow>
          if truthy val then
            (if isinstance_str val \<and> \<not> str_in (lower (py_str val)) (lower (py_str fv)) then False
             else if \<not> py_eq fv val then False
             else student_matches s cs)
          else student_matches s cs)"

definition search_students :: "store \<Rightarrow> (string \<times> pyval) list \<Rightarrow> student list" where
  "search_students students criteria = filter (\<lambda>s. student_matches s criteria) (dict_values students)"

section \<open>Identifiers\<close>

subsection \<open>Reading a decimal integer: \<open>int(s)\<close>\<close>

text \<open>
  \<open>int(s)\<close> strips white space at both ends, reads an optional sign and then decimal digits,
  where single underscores may stand between digits; anything else raises \<open>ValueError\<close>
  (\<open>None\<close> here). The interpreter's limit on the length of a decimal conversion is not
  part of the model.
\<close>

definition is_space :: "char \<Rightarrow> bool" where
  "is_space c =
     (let n = (of_char c :: nat)
      in (9 \<le> n \<and> n \<le> 13) \<or> (28 \<le> n \<and> n \<le> 32) \<or> n = 133 \<or> n = 160)"

definition is_digit :: "char \<Rightarrow> bool" where
  "is_digit c = (let n = (of_char c :: nat) in 48 \<le> n \<and> n \<le> 57)"

definition digit_val :: "char \<Rightarrow> nat" where
  "digit_val c = of_char c - 48"

text \<open>The number that a string of decimal digits denotes, read from the left.\<close>

definition digits_value :: "nat \<Rightarrow> string \<Rightarrow> nat" where
  "digits_value acc ds = foldl (\<lambda>a c. 10 * a + digit_val c) acc ds"

definition strip :: "string \<Rightarrow> string" where
  "strip s = rev (dropWhile is_space (rev (dropWhile is_space s)))"

fun read_digits :: "nat \<Rightarrow> string \<Rightarrow> nat option" where
  "read_digits acc [] = None"
| "read_digits acc [c] = (if is_digit c then Some (10 * acc + digit_val c) else None)"
| "read_digits acc (c # d # ds) =
     (if is_digit c then
        (if d = CHR ''_'' then read_digits (10 * acc + digit_val c) ds
         else read_digits (10 * acc + digit_val c) (d # ds))
      else None)"

definition py_int :: "string \<Rightarrow> int option" where
  "py_int s =
     (case strip s of
        [] \<Rightarrow> None
      | c # cs \<Rightarrow>
          if c = CHR ''-'' then map_option (\<lambda>n. - int n) (read_digits 0 cs)
          else if c = CHR ''+'' then map_option int (read_digits 0 cs)
          else map_option int (read_digits 0 (c # cs)))"

subsection \<open>Writing an identifier\<close>

text \<open>\<open>f"{n:03d}"\<close>: at least three characters, the sign included, padded with zeros.\<close>

definition zfill :: "nat \<Rightarrow> string \<Rightarrow> string" where
  "zfill w s = replicate (w - length s) (CHR ''0'') @ s"

definition format_03d :: "int \<Rightarrow> string" where
  "format_03d n =
     (if n < 0 then CHR ''-'' # zfill 2 (str_nat (nat (- n))) else zfill 3 (str_nat (nat n)))"

definition startswith :: "string \<Rightarrow> string \<Rightarrow> bool" where
  "startswith s p = (take (length p) s = p)"

text \<open>
  The list comprehension \<open>[int(sid[3:]) for sid in keys if sid.startswith("STU")]\<close>;
  the first suffix that \<open>int\<close> rejects raises \<open>ValueError\<close>.
\<close>

fun id_numbers :: "string list \<Rightarrow> py_error + int list" where
  "id_numbers [] = Inr []"
| "id_numbers (sid # sids) =
     (if startswith sid ''STU'' then
        (case py_int (drop 3 sid) of
           None \<Rightarrow> Inl ValueError
         | Some i \<Rightarrow> (case id_numbers sids of Inl e \<Rightarrow> Inl e | Inr ids \<Rightarrow> Inr (i # ids)))
      else id_numbers sids)"

text \<open>\<open>max(ids)\<close> of a list that is not empty.\<close>

fun max_list :: "int list \<Rightarrow> int" where
  "max_list [] = 0"
| "max_list [x] = x"
| "max_list (x # y # ys) = max x (max_list (y # ys))"

definition generate_id :: "store \<Rightarrow> py_error + string" where
  "generate_id students =
     (if students = [] then Inr ''STU001''
      else case id_numbers (dict_keys students) of
             Inl e \<Rightarrow> Inl e
           | Inr ids \<Rightarrow>
               (let new_id = (if ids \<noteq> [] then max_list ids + 1 else 1)
                in Inr (''STU'' @ format_03d new_id)))"

section \<open>The manager and its backing file\<close>

subsection \<open>Writing the JSON document\<close>

text \<open>
  \<open>json.dump(self.students, file, indent=4)\<close> with the defaults of the \<open>json\<close> module:
  items on lines of their own, four blanks per level, \<open>", "\<close> never used, \<open>": "\<close>
  after a key, and every character outside the printable ASCII range escaped.
\<close>

definition hex_char :: "nat \<Rightarrow> char" where
  "hex_char d = (if d < 10 then char_of (48 + d) else char_of (87 + d))"

definition json_escape :: "char \<Rightarrow> string" where
  "json_escape c =
     (let n = (of_char c :: nat) in
      if n = 34 then [CHR 0x5C, CHR 0x22]
      else if n = 92 then [CHR 0x5C, CHR 0x5C]
      else if n = 10 then [CHR 0x5C, CHR ''n'']
      else if n = 13 then [CHR 0x5C, CHR ''r'']
      else if n = 9 then [CHR 0x5C, CHR ''t'']
      else if n = 8 then [CHR 0x5C, CHR ''b'']
      else if n = 12 then [CHR 0x5C, CHR ''f'']
      else if 32 \<le> n \<and> n \<le> 126 then [c]
      else [CHR 0x5C, CHR ''u'', CHR ''0'', CHR ''0'', hex_char (n div 16), hex_char (n mod 16)])"

definition json_string :: "string \<Rightarrow> string" where
  "json_string s = CHR 0x22 # concat (map json_escape s) @ [CHR 0x22]"

fun json_value :: "pyval \<Rightarrow> string" where
  "json_value PNone = ''null''"
| "json_value (PBool b) = (if b then ''true'' else ''false'')"
| "json_value (PInt i) = str_int i"
| "json_value (PStr s) = json_string s"

definition newline_indent :: "nat \<Rightarrow> string" where
  "newline_indent level = CHR 0x0A # replicate (4 * level) (CHR '' '')"

fun join_items :: "string \<Rightarrow> string list \<Rightarrow> string" where
  "join_items sep [] = []"
| "join_items sep [x] = x"
| "join_items sep (x # y # ys) = x @ sep @ join_items sep (y # ys)"

definition json_dict :: "('v \<Rightarrow> string) \<Rightarrow> nat \<Rightarrow> (string \<times> 'v) list \<Rightarrow> string" where
  "json_dict enc level d =
     (if d = [] then ''{}''
      else ''{'' @ newline_indent (level + 1)
           @ join_items (CHR '','' # newline_indent (level + 1))
               (map (\<lambda>(k, v). json_string k @ '': '' @ enc v) d)
           @ newline_indent level @ ''}'')"

definition json_dump :: "store \<Rightarrow> string" where
  "json_dump st = json_dict (json_dict json_value 1) 0 st"

subsection \<open>State\<close>

text \<open>
  The manager holds the mapping \<open>self.students\<close>; \<open>backing_file\<close> is the text of the file,
  \<open>None\<close> while the file does not exist.
\<close>

record manager =
  students :: store
  backing_file :: "string option"

definition save_records :: "manager \<Rightarrow> manager" where
  "save_records m = m\<lparr>backing_file := Some (json_dump (students m))\<rparr>"

section \<open>Operations on records\<close>

text \<open>
  \<open>add_student(name, age, grade, email, phone)\<close>. The two time stamps are the texts that
  the two calls of \<open>datetime.now().strftime\<close> produce. An exception of \<open>generate_id\<close>
  leaves the manager as it was.
\<close>

definition add_student ::
  "manager \<Rightarrow> pyval \<Rightarrow> pyval \<Rightarrow> pyval \<Rightarrow> pyval \<Rightarrow> pyval \<Rightarrow> string \<Rightarrow> string
     \<Rightarrow> py_error + (string \<times> manager)" where
  "add_student m name age grade email phone now1 now2 =
     (case generate_id (students m) of
        Inl e \<Rightarrow> Inl e
      | Inr student_id \<Rightarrow>
          (let student =
                 [(''id'', PStr student_id), (''name'', name), (''age'', age), (''grade'', grade),
                  (''email'', email), (''phone'', phone),
                  (''created_at'', PStr now1), (''updated_at'', PStr now2)]
           in Inr (student_id, save_records (m\<lparr>students := dict_set student_id student (students m)\<rparr>))))"

definition valid_fields :: "string list" where
  "valid_fields = [''name'', ''age'', ''grade'', ''email'', ''phone'']"

text \<open>The loop over \<open>kwargs.items()\<close> in \<open>update_student\<close>.\<close>

fun apply_fields :: "student \<Rightarrow> (string \<times> pyval) list \<Rightarrow> student" where
  "apply_fields s [] = s"
| "apply_fields s ((field, val) # kw) =
     apply_fields (if field \<in> set valid_fields \<and> val \<noteq> PNone then dict_set field val s else s) kw"

definition update_student :: "manager \<Rightarrow> string \<Rightarrow> (string \<times> pyval) list \<Rightarrow> string \<Rightarrow> bool \<times> manager" where
  "update_student m student_id kwargs now =
     (case map_of (students m) student_id of
        None \<Rightarrow> (False, m)
      | Some s \<Rightarrow>
          (let s' = dict_set ''updated_at'' (PStr now) (apply_fields s kwargs)
           in (True, save_records (m\<lparr>students := dict_set student_id s' (students m)\<rparr>))))"

definition delete_student :: "manager \<Rightarrow> string \<Rightarrow> bool \<times> manager" where
  "delete_student m student_id =
     (if dict_has student_id (students m)
      then (True, save_records (m\<lparr>students := dict_del student_id (students m)\<rparr>))
      else (False, m))"

definition get_student :: "manager \<Rightarrow> string \<Rightarrow> student option" where
  "get_student m student_id = map_of (students m) student_id"

section \<open>Reading the JSON document\<close>

text \<open>
  \<open>json.load\<close> as the scanner of the \<open>json\<close> module does it. A document denotes a Python
  object: \<open>null\<close>, a boolean, an integer, a float (kept here as its text), a string, a
  list, or a dict. A four-digit hexadecimal escape above \<open>00ff\<close> denotes a character
  outside the 8-bit alphabet of this development and is rejected.
\<close>

datatype json =
    JNull | JBool bool | JInt int | JFloat string | JStr string
  | JArr "json list" | JObj "(string \<times> json) list"

definition is_json_ws :: "char \<Rightarrow> bool" where
  "is_json_ws c = (c = CHR '' '' \<or> c = CHR 0x09 \<or> c = CHR 0x0A \<or> c = CHR 0x0D)"

definition skip_ws :: "string \<Rightarrow> string" where
  "skip_ws s = dropWhile is_json_ws s"

definition hex_val :: "char \<Rightarrow> nat option" where
  "hex_val c =
     (let n = (of_char c :: nat) in
      if 48 \<le> n \<and> n \<le> 57 then Some (n - 48)
      else if 97 \<le> n \<and> n \<le> 102 then Some (n - 87)
      else if 65 \<le> n \<and> n \<le> 70 then Some (n - 55)
      else None)"

text \<open>The four hexadecimal digits of an escaped character.\<close>

fun hex4 :: "string \<Rightarrow> nat option" where
  "hex4 [a, b, c, d] =
     (case (hex_val a, hex_val b, hex_val c, hex_val d) of
        (Some x, Some y, Some z, Some w) \<Rightarrow> Some (((x * 16 + y) * 16 + z) * 16 + w)
      | _ \<Rightarrow> None)"
| "hex4 _ = None"

text \<open>The character that follows a backslash, other than \<open>u\<close>.\<close>

definition backslash :: "char \<Rightarrow> char option" where
  "backslash e =
     (if e = CHR 0x22 then Some (CHR 0x22)
      else if e = CHR 0x5C then Some (CHR 0x5C)
      else if e = CHR ''/'' then Some (CHR ''/'')
      else if e = CHR ''b'' then Some (CHR 0x08)
      else if e = CHR ''f'' then Some (CHR 0x0C)
      else if e = CHR ''n'' then Some (CHR 0x0A)
      else if e = CHR ''r'' then Some (CHR 0x0D)
      else if e = CHR ''t'' then Some (CHR 0x09)
      else None)"

text \<open>
  \<open>scanstring\<close>, strict: the text after the opening quote, up to the closing quote.
  A control character, a bad escape or the end of the text is an error (\<open>None\<close>).
\<close>

fun scanstring :: "string \<Rightarrow> (string \<times> string) option" where
  "scanstring [] = None"
| "scanstring (c # cs) =
     (if c = CHR 0x22 then Some ([], cs)
      else if c = CHR 0x5C then
        (case cs of
           [] \<Rightarrow> None
         | e # es \<Rightarrow>
             if e = CHR ''u'' then
               (case hex4 (take 4 es) of
                  None \<Rightarrow> None
                | Some n \<Rightarrow>
                    if n < 256 then
                      (case scanstring (drop 4 es) of
                         None \<Rightarrow> None
                       | Some (str, rest) \<Rightarrow> Some (char_of n # str, rest))
                    else None)
             else
               (case backslash e of
                  None \<Rightarrow> None
                | Some ch \<Rightarrow>
                    (case scanstring es of
                       None \<Rightarrow> None
                     | Some (str, rest) \<Rightarrow> Some (ch # str, rest))))
      else if (of_char c :: nat) < 32 then None
      else
        (case scanstring cs of
           None \<Rightarrow> None
         | Some (str, rest) \<Rightarrow> Some (c # str, rest)))"

text \<open>
  A number: an optional minus, then \<open>0\<close> or a digit from 1 to 9 with any digits after
  it; a fraction (a point and digits) and an exponent may follow and make it a float.
\<close>

definition take_digits :: "string \<Rightarrow> string \<times> string" where
  "take_digits s = (takeWhile is_digit s, dropWhile is_digit s)"

definition int_part :: "string \<Rightarrow> (string \<times> string) option" where
  "int_part s =
     (case s of
        [] \<Rightarrow> None
      | c # cs \<Rightarrow>
          if c = CHR ''0'' then Some ([c], cs)
          else if is_digit c then Some (c # fst (take_digits cs), snd (take_digits cs))
          else None)"

definition frac_part :: "string \<Rightarrow> string \<times> string" where
  "frac_part s =
     (case s of
        c # d # ds \<Rightarrow>
          if c = CHR ''.'' \<and> is_digit d then (c # fst (take_digits (d # ds)), snd (take_digits (d # ds)))
          else ([], s)
      | _ \<Rightarrow> ([], s))"

definition exp_part :: "string \<Rightarrow> string \<times> string" where
  "exp_part s =
     (case s of
        [] \<Rightarrow> ([], s)
      | c # cs \<Rightarrow>
          if c = CHR ''e'' \<or> c = CHR ''E'' then
            (case cs of
               [] \<Rightarrow> ([], s)
             | d # ds \<Rightarrow>
                 if (d = CHR ''-'' \<or> d = CHR ''+'') \<and> ds \<noteq> [] \<and> is_digit (hd ds)
                 then (c # d # fst (take_digits ds), snd (take_digits ds))
                 else if is_digit d then (c # fst (take_digits cs), snd (take_digits cs))
                 else ([], s))
          else ([], s))"

definition match_number :: "string \<Rightarrow> (json \<times> string) option" where
  "match_number s =
     (let (sign, s1) = (case s of c # cs \<Rightarrow> if c = CHR ''-'' then ([c], cs) else ([], s) | [] \<Rightarrow> ([], s))
      in case int_part s1 of
           None \<Rightarrow> None
         | Some (ds, s2) \<Rightarrow>
             (let (frac, s3) = frac_part s2; (ex, s4) = exp_part s3
              in if frac = [] \<and> ex = []
                 then Some (JInt (if sign = [] then int (digits_value 0 ds)
                                  else - int (digits_value 0 ds)), s4)
                 else Some (JFloat (sign @ ds @ frac @ ex), s4)))"

text \<open>\<open>dict(pairs)\<close>: a key that comes again keeps its place and takes the later value.\<close>

definition dict_of_pairs :: "('k \<times> 'v) list \<Rightarrow> ('k \<times> 'v) list" where
  "dict_of_pairs ps = foldl (\<lambda>d (k, v). dict_set k v d) [] ps"

text \<open>
  \<open>scan_once\<close> with the loops over the members of an object and the elements of an
  array. The first argument bounds the number of nested calls; every call consumes a
  character of the text, so one more than the length of the text is enough, and
  running out is reported as \<open>RecursionError\<close>, not as a decoding error.
  \<open>object_items\<close> starts after the opening quote of a key, \<open>array_items\<close> at a value.
\<close>

fun scan_once :: "nat \<Rightarrow> string \<Rightarrow> py_error + (json \<times> string)"
  and object_items :: "nat \<Rightarrow> (string \<times> json) list \<Rightarrow> string \<Rightarrow> py_error + (json \<times> string)"
  and array_items :: "nat \<Rightarrow> json list \<Rightarrow> string \<Rightarrow> py_error + (json \<times> string)" where
  "scan_once 0 s = Inl RecursionError"
| "scan_once (Suc n) [] = Inl JSONDecodeError"
| "scan_once (Suc n) (c # cs) =
     (if c = CHR 0x22 then
        (case scanstring cs of
           None \<Rightarrow> Inl JSONDecodeError
         | Some (str, rest) \<Rightarrow> Inr (JStr str, rest))
      else if c = CHR ''{'' then
        (case skip_ws cs of
           [] \<Rightarrow> Inl JSONDecodeError
         | d # ds \<Rightarrow>
             if d = CHR ''}'' then Inr (JObj [], ds)
             else if d = CHR 0x22 then object_items n [] ds
             else Inl JSONDecodeError)
      else if c = CHR ''['' then
        (case skip_ws cs of
           [] \<Rightarrow> Inl JSONDecodeError
         | d # ds \<Rightarrow> if d = CHR '']'' then Inr (JArr [], ds) else array_items n [] (d # ds))
      else if take 4 (c # cs) = ''null'' then Inr (JNull, drop 4 (c # cs))
      else if take 4 (c # cs) = ''true'' then Inr (JBool True, drop 4 (c # cs))
      else if take 5 (c # cs) = ''false'' then Inr (JBool False, drop 5 (c # cs))
      else if take 3 (c # cs) = ''NaN'' then Inr (JFloat ''NaN'', drop 3 (c # cs))
      else if take 8 (c # cs) = ''Infinity'' then Inr (JFloat ''Infinity'', drop 8 (c # cs))
      else if take 9 (c # cs) = ''-Infinity'' then Inr (JFloat ''-Infinity'', drop 9 (c # cs))
      else
        (case match_number (c # cs) of
           None \<Rightarrow> Inl JSONDecodeError
         | Some r \<Rightarrow> Inr r))"
| "object_items 0 pairs s = Inl RecursionError"
| "object_items (Suc n) pairs s =
     (case scanstring s of
        None \<Rightarrow> Inl JSONDecodeError
      | Some (key, r1) \<Rightarrow>
          (case skip_ws r1 of
             [] \<Rightarrow> Inl JSONDecodeError
           | c # r2 \<Rightarrow>
               if c \<noteq> CHR '':'' then Inl JSONDecodeError
               else
                 (case scan_once n (skip_ws r2) of
                    Inl e \<Rightarrow> Inl e
                  | Inr (v, r3) \<Rightarrow>
                      (case skip_ws r3 of
                         [] \<Rightarrow> Inl JSONDecodeError
                       | d # r4 \<Rightarrow>
                           if d = CHR ''}'' then Inr (JObj (dict_of_pairs (pairs @ [(key, v)])), r4)
                           else if d = CHR '','' then
                             (case skip_ws r4 of
                                [] \<Rightarrow> Inl JSONDecodeError
                              | q # r5 \<Rightarrow>
                                  if q = CHR 0x22 then object_items n (pairs @ [(key, v)]) r5
                                  else Inl JSONDecodeError)
                           else Inl JSONDecodeError))))"
| "array_items 0 vals s = Inl RecursionError"
| "array_items (Suc n) vals s =
     (case scan_once n s of
        Inl e \<Rightarrow> Inl e
      | Inr (v, r1) \<Rightarrow>
          (case skip_ws r1 of
             [] \<Rightarrow> Inl JSONDecodeError
           | d # r2 \<Rightarrow>
               if d = CHR '']'' then Inr (JArr (vals @ [v]), r2)
               else if d = CHR '','' then array_items n (vals @ [v]) (skip_ws r2)
               else Inl JSONDecodeError))"

text \<open>\<open>json.loads\<close>: a value with white space around it and nothing after it.\<close>

definition json_loads :: "string \<Rightarrow> py_error + json" where
  "json_loads s =
     (case scan_once (Suc (length s)) (skip_ws s) of
        Inl e \<Rightarrow> Inl e
      | Inr (v, rest) \<Rightarrow> if skip_ws rest = [] then Inr v else Inl JSONDecodeError)"

text \<open>
  \<open>load_records\<close>: the empty dict when the file is missing or does not decode, the
  decoded object otherwise.
\<close>

definition load_records :: "manager \<Rightarrow> py_error + json" where
  "load_records m =
     (case backing_file m of
        None \<Rightarrow> Inr (JObj [])
      | Some text \<Rightarrow>
          (case json_loads text of
             Inl JSONDecodeError \<Rightarrow> Inr (JObj [])
           | Inl e \<Rightarrow> Inl e
           | Inr v \<Rightarrow> Inr v))"

text \<open>A text before which an integer ends: it does not go on as a number would.\<close>

definition ends_number :: "string \<Rightarrow> bool" where
  "ends_number rest =
     (case rest of
        [] \<Rightarrow> True
      | c # cs \<Rightarrow> \<not> is_digit c \<and> c \<noteq> CHR ''.'' \<and> c \<noteq> CHR ''e'' \<and> c \<noteq> CHR ''E'')"

text \<open>The mapping of the manager as the Python object that it is.\<close>

fun value_object :: "pyval \<Rightarrow> json" where
  "value_object PNone = JNull"
| "value_object (PBool b) = JBool b"
| "value_object (PInt i) = JInt i"
| "value_object (PStr s) = JStr s"

definition student_object :: "student \<Rightarrow> json" where
  "student_object s = JObj (map (\<lambda>(f, v). (f, value_object v)) s)"

definition store_object :: "store \<Rightarrow> json" where
  "store_object st = JObj (map (\<lambda>(k, s). (k, student_object s)) st)"

section \<open>Statistics\<close>










section \<open>Sequences of operations\<close>

text \<open>
  The three mutating operations as commands, and a run of the manager through a list of
  them. An \<open>add_student\<close> that raises leaves the manager as it was, and the run goes on,
  as the menu loop does after it has reported an exception.
\<close>

datatype op =
    Add pyval pyval pyval pyval pyval string string
  | Update string "(string \<times> pyval) list" string
  | Delete string

datatype outcome = Added string | Raised py_error | Updated bool | Deleted bool

fun step :: "manager \<Rightarrow> op \<Rightarrow> outcome \<times> manager" where
  "step m (Add name age grade email phone now1 now2) =
     (case add_student m name age grade email phone now1 now2 of
        Inl e \<Rightarrow> (Raised e, m)
      | Inr (sid, m') \<Rightarrow> (Added sid, m'))"
| "step m (Update sid kwargs now) =
     (case update_student m sid kwargs now of (b, m') \<Rightarrow> (Updated b, m'))"
| "step m (Delete sid) =
     (case delete_student m sid of (b, m') \<Rightarrow> (Deleted b, m'))"

fun run :: "manager \<Rightarrow> op list \<Rightarrow> outcome list \<times> manager" where
  "run m [] = ([], m)"
| "run m (c # cs) =
     (case step m c of (r, m') \<Rightarrow> (case run m' cs of (rs, m'') \<Rightarrow> (r # rs, m'')))"

section \<open>Notions used in the statements\<close>

text \<open>What a single criterion demands of a record in \<open>search_students\<close>.\<close>

definition criterion_accepts :: "student \<Rightarrow> string \<times> pyval \<Rightarrow> bool" where
  "criterion_accepts s c =
     (case map_of s (fst c) of None \<Rightarrow> True | Some fv \<Rightarrow> truthy (snd c) \<longrightarrow> py_eq fv (snd c))"

text \<open>A keyword argument that \<open>update_student\<close> applies: an allowed field with a value that is not \<open>None\<close>.\<close>

definition supplied :: "string \<times> pyval \<Rightarrow> bool" where
  "supplied kv = (fst kv \<in> set valid_fields \<and> snd kv \<noteq> PNone)"

text \<open>The numeric suffix of an identifier: \<open>int(sid[3:])\<close>.\<close>

definition suffix_of :: "string \<Rightarrow> int option" where
  "suffix_of sid = py_int (drop 3 sid)"

text \<open>The numeric suffixes of the identifiers of the store that carry the prefix.\<close>

definition present_suffixes :: "store \<Rightarrow> int list" where
  "present_suffixes st =
     List.map_filter (\<lambda>k. if startswith k ''STU'' then suffix_of k else None) (dict_keys st)"

text \<open>One more than the greatest suffix that is present, and 1 when there is none.\<close>

definition next_number :: "store \<Rightarrow> int" where
  "next_number st =
     (if present_suffixes st \<noteq> [] then Max (set (present_suffixes st)) + 1 else 1)"

text \<open>The identifier with the number \<open>n\<close>: \<open>f"STU{n:03d}"\<close>.\<close>

definition stu_id :: "int \<Rightarrow> string" where
  "stu_id n = ''STU'' @ format_03d n"


text \<open>Every identifier with the prefix has a suffix that \<open>int\<close> accepts.\<close>

definition suffixes_numeric :: "store \<Rightarrow> bool" where
  "suffixes_numeric st = list_all (\<lambda>k. startswith k ''STU'' \<longrightarrow> suffix_of k \<noteq> None) (dict_keys st)"

text \<open>Every record carries its key in its \<open>id\<close> field, and no key occurs twice.\<close>

definition ids_consistent :: "store \<Rightarrow> bool" where
  "ids_consistent st =
     (distinct (dict_keys st) \<and> list_all (\<lambda>(k, s). map_of s ''id'' = Some (PStr k)) st)"







subsection \<open>Sample data\<close>

definition mk_student :: "string \<Rightarrow> string \<Rightarrow> int \<Rightarrow> string \<Rightarrow> student" where
  "mk_student sid name age grade =
     [(''id'', PStr sid), (''name'', PStr name), (''age'', PInt age), (''grade'', PStr grade),
      (''email'', PNone), (''phone'', PNone),
      (''created_at'', PStr ''2024-01-01 10:00:00''), (''updated_at'', PStr ''2024-01-01 10:00:00'')]"

definition alice :: student where
  "alice = mk_student ''STU001'' ''Alice'' 10 ''A''"

definition bob :: student where
  "bob = mk_student ''STU002'' ''Bob'' 20 ''A''"

definition carol :: student where
  "carol = mk_student ''STU003'' ''Carol'' 15 ''B''"

definition sample_store :: store where
  "sample_store = [(''STU001'', alice), (''STU002'', bob), (''STU003'', carol)]"

definition sample_manager :: manager where
  "sample_manager = \<lparr>students = sample_store, backing_file = Some (json_dump sample_store)\<rparr>"


definition add_plain :: "string \<Rightarrow> int \<Rightarrow> string \<Rightarrow> op" where
  "add_plain name age grade =
     Add (PStr name) (PInt age) (PStr grade) PNone PNone ''2024-01-01 10:00:00'' ''2024-01-01 10:00:00''"

definition bob_regraded :: student where
  "bob_regraded =
     [(''id'', PStr ''STU002''), (''name'', PStr ''Bob''), (''age'', PInt 20), (''grade'', PStr ''C''),
      (''email'', PNone), (''phone'', PNone),
      (''created_at'', PStr ''2024-01-01 10:00:00''), (''updated_at'', PStr ''2024-02-02 09:30:00'')]"

definition regraded_store :: store where
  "regraded_store = [(''STU001'', alice), (''STU002'', bob_regraded), (''STU003'', carol)]"

definition regraded_manager :: manager where
  "regraded_manager = \<lparr>students = regraded_store, backing_file = Some (json_dump regraded_store)\<rparr>"



definition tiny_store :: store where
  "tiny_store =
     [(''STU001'', [(''id'', PStr ''STU001''), (''name'', PStr [CHR ''A'', CHR 0x22, CHR 0x0A, CHR 0xE9]),
                    (''age'', PInt (- 7)), (''email'', PNone)]),
      (''X'', [])]"

definition tiny_manager :: manager where
  "tiny_manager = \<lparr>students = tiny_store, backing_file = None\<rparr>"

section \<open>Facts about dictionaries\<close>

lemma map_of_dict_set: "map_of (dict_set k v d) = (map_of d)(k \<mapsto> v)"
  by (induction d) (auto simp: fun_upd_twist)

lemma dict_keys_dict_set_present:
  "map_of d k \<noteq> None \<Longrightarrow> dict_keys (dict_set k v d) = dict_keys d"
  by (induction d) (auto simp: dict_keys_def)


lemma map_of_eq_None_keys: "map_of d k = None \<longleftrightarrow> k \<notin> set (dict_keys d)"
  by (simp add: map_of_eq_None_iff dict_keys_def)

lemma dict_has_keys: "dict_has k d \<longleftrightarrow> k \<in> set (dict_keys d)"
  by (simp add: dict_has_def map_of_eq_None_keys)

lemma map_of_dict_del_other: "k' \<noteq> k \<Longrightarrow> map_of (dict_del k d) k' = map_of d k'"
  by (induction d) auto

lemma set_dict_del_subset: "set (dict_del k d) \<subseteq> set d"
  by (induction d) (auto split: if_splits)

lemma dict_keys_dict_del: "distinct (dict_keys d) \<Longrightarrow> dict_keys (dict_del k d) = removeAll k (dict_keys d)"
  by (induction d) (auto simp: dict_keys_def)

lemma students_save_records: "students (save_records m) = students m"
  by (simp add: save_records_def)

lemma dict_set_absent: "map_of d k = None \<Longrightarrow> dict_set k v d = d @ [(k, v)]"
  by (induction d) (auto split: if_splits)

lemma set_dict_set_subset: "set (dict_set k v d) \<subseteq> insert (k, v) (set d)"
  by (induction d) (auto split: if_splits)

section \<open>Searching\<close>

lemma is_prefix_refl: "is_prefix xs xs"
  by (induction xs) auto

lemma str_in_refl: "str_in xs xs"
  by (cases xs) (auto simp: is_prefix_refl)

lemma py_eq_str: "isinstance_str v \<Longrightarrow> py_eq fv v \<Longrightarrow> fv = v"
  by (cases v; cases fv) auto

text \<open>
  The loop of \<open>search_students\<close> keeps a record exactly when every criterion accepts it,
  and a criterion whose key is a field and whose value is truthy accepts only a field
  equal to the value: for a string value the \<open>elif\<close> is reached whenever the substring
  test passes.
\<close>

lemma student_matches_iff: "student_matches s cs \<longleftrightarrow> (\<forall>c \<in> set cs. criterion_accepts s c)"
proof (induction cs)
  case Nil
  show ?case by simp
next
  case (Cons c cs)
  obtain key val where c: "c = (key, val)" by (cases c)
  show ?case
  proof (cases "map_of s key")
    case None
    with Cons c show ?thesis by (simp add: criterion_accepts_def)
  next
    case (Some fv)
    have "isinstance_str val \<Longrightarrow> py_eq fv val \<Longrightarrow> str_in (lower (py_str val)) (lower (py_str fv))"
      using py_eq_str [of val fv] by (simp add: str_in_refl)
    with Cons c Some show ?thesis by (auto simp: criterion_accepts_def)
  qed
qed

lemma student_matches_append:
  "student_matches s (cs1 @ cs2) \<longleftrightarrow> student_matches s cs1 \<and> student_matches s cs2"
  by (auto simp: student_matches_iff)

lemma in_search_students:
  "s \<in> set (search_students st cs) \<longleftrightarrow> s \<in> set (dict_values st) \<and> student_matches s cs"
  by (simp add: search_students_def)

text \<open>
  Claim C1. The claim says that a string criterion matches a record exactly when the
  lowercased criterion is a substring of the lowercased text of the field. The code does
  not do that: searching the store that holds only Alice for the name \<open>ali\<close> returns
  nothing, although \<open>ali\<close> is a substring of \<open>alice\<close>. The substring test passes, the
  \<open>elif\<close> then compares \<open>'Alice' != 'ali'\<close> and rejects the record.
\<close>

theorem search_substring_criterion_rejected:
  "str_in (lower ''ali'') (lower (py_str (PStr ''Alice'')))
   \<and> map_of alice ''name'' = Some (PStr ''Alice'')
   \<and> search_students [(''STU001'', alice)] [(''name'', PStr ''ali'')] = []"
  by code_simp

text \<open>
  Claim C7. Criteria are conjunctive: the search with the criteria \<open>cs1\<close> followed by
  \<open>cs2\<close> returns, in store order, exactly the records that the search with \<open>cs1\<close> and the
  search with \<open>cs2\<close> both return (two criteria are the case of two one-element lists).
  A criterion whose value is \<open>None\<close> or the empty string is neutral: the search returns
  the same list as the search without it.
\<close>

theorem search_criteria_conjunctive_blank_neutral:
  "search_students st (cs1 @ cs2) =
     filter (\<lambda>s. s \<in> set (search_students st cs1) \<and> s \<in> set (search_students st cs2))
       (dict_values st)
   \<and> search_students st [c1, c2] =
     filter (\<lambda>s. s \<in> set (search_students st [c1]) \<and> s \<in> set (search_students st [c2]))
       (dict_values st)
   \<and> ((v = PNone \<or> v = PStr []) \<longrightarrow>
        search_students st (cs1 @ (k, v) # cs2) = search_students st (cs1 @ cs2))"
proof -
  have a: "search_students st (xs @ ys) =
     filter (\<lambda>s. s \<in> set (search_students st xs) \<and> s \<in> set (search_students st ys))
       (dict_values st)" for xs ys
    unfolding search_students_def by (rule filter_cong) (auto simp: student_matches_append)
  have b: "search_students st (cs1 @ (k, v) # cs2) = search_students st (cs1 @ cs2)"
    if "v = PNone \<or> v = PStr []"
  proof -
    have "criterion_accepts s (k, v)" for s
      using that by (auto simp: criterion_accepts_def split: option.splits)
    then have "student_matches s (cs1 @ (k, v) # cs2) = student_matches s (cs1 @ cs2)" for s
      by (auto simp: student_matches_iff)
    then show ?thesis by (simp add: search_students_def)
  qed
  from a [of cs1 cs2] a [of "[c1]" "[c2]"] b show ?thesis by simp
qed

theorem search_criteria_conjunctive_blank_neutral_witness:
  "search_students sample_store [(''grade'', PStr ''A''), (''age'', PInt 20)] = [bob]
   \<and> search_students sample_store [(''grade'', PStr ''A'')] = [alice, bob]
   \<and> search_students sample_store [(''age'', PInt 20)] = [bob]
   \<and> (PStr [] = PNone \<or> PStr [] = PStr [])
   \<and> search_students sample_store ([(''grade'', PStr ''A'')] @ (''name'', PStr []) # [(''age'', PInt 20)])
       = search_students sample_store ([(''grade'', PStr ''A'')] @ [(''age'', PInt 20)])"
proof -
  have e1: "search_students sample_store [(''grade'', PStr ''A''), (''age'', PInt 20)] = [bob]"
    by code_simp
  have e2: "search_students sample_store [(''grade'', PStr ''A'')] = [alice, bob]"
    by code_simp
  have e3: "search_students sample_store [(''age'', PInt 20)] = [bob]"
    by code_simp
  from search_criteria_conjunctive_blank_neutral
         [of sample_store "[(''grade'', PStr ''A'')]" "[(''age'', PInt 20)]"
             "(''grade'', PStr ''A'')" "(''age'', PInt 20)" "PStr []" "''name''"]
  have "search_students sample_store ([(''grade'', PStr ''A'')] @ (''name'', PStr []) # [(''age'', PInt 20)])
       = search_students sample_store ([(''grade'', PStr ''A'')] @ [(''age'', PInt 20)])"
    by simp
  with e1 e2 e3 show ?thesis by simp
qed

section \<open>Unknown identifiers\<close>

text \<open>
  Claim C4. For an identifier that is not a key of the store, \<open>update_student\<close> and
  \<open>delete_student\<close> both return \<open>False\<close> (they have no raising branch), and the manager
  they leave behind is the one they were given: the mapping and the backing file are
  untouched.
\<close>

theorem unknown_id_not_found_unchanged:
  "\<not> dict_has sid (students m) \<Longrightarrow>
     update_student m sid kwargs now = (False, m) \<and> delete_student m sid = (False, m)"
  by (simp add: dict_has_def update_student_def delete_student_def)

theorem unknown_id_not_found_unchanged_witness:
  "\<not> dict_has ''STU009'' (students sample_manager)
   \<and> update_student sample_manager ''STU009'' [(''grade'', PStr ''B'')] ''2024-01-02 10:00:00''
       = (False, sample_manager)
   \<and> delete_student sample_manager ''STU009'' = (False, sample_manager)"
proof -
  have h: "\<not> dict_has ''STU009'' (students sample_manager)"
    by code_simp
  from h unknown_id_not_found_unchanged [OF h] show ?thesis by simp
qed

section \<open>Updating a record\<close>

lemma apply_fields_filter: "apply_fields s (filter supplied kw) = apply_fields s kw"
  by (induction kw arbitrary: s) (auto simp: supplied_def)

lemma map_of_apply_fields_other:
  "f \<notin> fst ` set (filter supplied kw) \<Longrightarrow> map_of (apply_fields s kw) f = map_of s f"
  by (induction kw arbitrary: s) (auto simp: supplied_def map_of_dict_set)

lemma map_of_apply_fields_not_valid:
  "f \<notin> set valid_fields \<Longrightarrow> map_of (apply_fields s kw) f = map_of s f"
  by (rule map_of_apply_fields_other) (auto simp: supplied_def)

lemma update_student_present:
  "map_of (students m) sid = Some s \<Longrightarrow>
   update_student m sid kwargs now =
     (True, save_records (m\<lparr>students :=
        dict_set sid (dict_set ''updated_at'' (PStr now) (apply_fields s kwargs)) (students m)\<rparr>))"
  by (simp add: update_student_def)

text \<open>
  Claim C3. Let \<open>sid\<close> be the identifier of a record \<open>s\<close> of the store, and \<open>s'\<close> the
  record under \<open>sid\<close> after \<open>update_student\<close>. The call succeeds; \<open>updated_at\<close> is the
  time stamp of the call; \<open>created_at\<close> and \<open>id\<close> are as before; a call that supplies
  only \<open>grade\<close> leaves \<open>name\<close>, \<open>age\<close>, \<open>email\<close> and \<open>phone\<close> as they were; more
  generally every field that is not supplied, and every field outside the allow-list,
  is as before (\<open>updated_at\<close> apart); every other record and the order of the keys are
  unchanged; and the call does the same as the call with only the supplied arguments,
  that is without the arguments that are \<open>None\<close> or outside the allow-list.
\<close>

theorem update_student_frame:
  assumes present: "map_of (students m) sid = Some s"
      and result: "update_student m sid kwargs now = (ok, m')"
      and updated: "map_of (students m') sid = Some s'"
  shows "ok
    \<and> map_of s' ''updated_at'' = Some (PStr now)
    \<and> map_of s' ''created_at'' = map_of s ''created_at''
    \<and> map_of s' ''id'' = map_of s ''id''
    \<and> (kwargs = [(''grade'', g)] \<longrightarrow>
         map_of s' ''name'' = map_of s ''name'' \<and> map_of s' ''age'' = map_of s ''age'' \<and>
         map_of s' ''email'' = map_of s ''email'' \<and> map_of s' ''phone'' = map_of s ''phone'')
    \<and> (\<forall>f. f \<notin> fst ` set kwargs \<and> f \<noteq> ''updated_at'' \<longrightarrow> map_of s' f = map_of s f)
    \<and> (\<forall>f. f \<notin> set valid_fields \<and> f \<noteq> ''updated_at'' \<longrightarrow> map_of s' f = map_of s f)
    \<and> (\<forall>sid'. sid' \<noteq> sid \<longrightarrow> map_of (students m') sid' = map_of (students m) sid')
    \<and> dict_keys (students m') = dict_keys (students m)
    \<and> update_student m sid (filter supplied kwargs) now = (ok, m')"
proof -
  from present result have ok: "ok"
    and m': "m' = save_records (m\<lparr>students :=
        dict_set sid (dict_set ''updated_at'' (PStr now) (apply_fields s kwargs)) (students m)\<rparr>)"
    by (simp_all add: update_student_present)
  from m' updated have s': "s' = dict_set ''updated_at'' (PStr now) (apply_fields s kwargs)"
    by (simp add: students_save_records map_of_dict_set)
  have other: "map_of s' f = map_of s f" if "f \<notin> fst ` set (filter supplied kwargs)" "f \<noteq> ''updated_at''" for f
    using that by (simp add: s' map_of_dict_set map_of_apply_fields_other)
  have stamp: "map_of s' ''updated_at'' = Some (PStr now)"
    by (simp add: s' map_of_dict_set)
  have nv: "map_of s' f = map_of s f" if "f \<notin> set valid_fields" "f \<noteq> ''updated_at''" for f
    using that by (intro other) (auto simp: supplied_def)
  have created: "map_of s' ''created_at'' = map_of s ''created_at''"
    by (rule nv) (simp_all add: valid_fields_def)
  have ident: "map_of s' ''id'' = map_of s ''id''"
    by (rule nv) (simp_all add: valid_fields_def)
  have nk: "map_of s' f = map_of s f" if "f \<notin> fst ` set kwargs" "f \<noteq> ''updated_at''" for f
    using that by (intro other) auto
  have grade: "map_of s' ''name'' = map_of s ''name'' \<and> map_of s' ''age'' = map_of s ''age'' \<and>
         map_of s' ''email'' = map_of s ''email'' \<and> map_of s' ''phone'' = map_of s ''phone''"
    if "kwargs = [(''grade'', g)]"
    using that by (auto intro!: nk)
  have others: "map_of (students m') sid' = map_of (students m) sid'" if "sid' \<noteq> sid" for sid'
    using that by (simp add: m' students_save_records map_of_dict_set)
  have keys: "dict_keys (students m') = dict_keys (students m)"
    using present by (simp add: m' students_save_records dict_keys_dict_set_present)
  have filt: "update_student m sid (filter supplied kwargs) now = (ok, m')"
    using present ok by (simp add: update_student_present m' apply_fields_filter)
  from ok stamp created ident grade nk nv others keys filt show ?thesis by blast
qed

theorem update_student_frame_witness:
  "map_of (students sample_manager) ''STU002'' = Some bob
   \<and> update_student sample_manager ''STU002''
        [(''grade'', PStr ''C''), (''name'', PNone), (''id'', PStr ''STU777'')] ''2024-02-02 09:30:00''
       = (True, regraded_manager)
   \<and> map_of (students regraded_manager) ''STU002'' = Some bob_regraded
   \<and> map_of bob_regraded ''updated_at'' = Some (PStr ''2024-02-02 09:30:00'')
   \<and> map_of bob_regraded ''created_at'' = map_of bob ''created_at''
   \<and> map_of bob_regraded ''id'' = map_of bob ''id''
   \<and> update_student sample_manager ''STU002''
        (filter supplied [(''grade'', PStr ''C''), (''name'', PNone), (''id'', PStr ''STU777'')])
        ''2024-02-02 09:30:00''
       = (True, regraded_manager)"
proof -
  have h1: "map_of (students sample_manager) ''STU002'' = Some bob"
    by code_simp
  have h2: "update_student sample_manager ''STU002''
        [(''grade'', PStr ''C''), (''name'', PNone), (''id'', PStr ''STU777'')] ''2024-02-02 09:30:00''
       = (True, regraded_manager)"
    by code_simp
  have h3: "map_of (students regraded_manager) ''STU002'' = Some bob_regraded"
    by code_simp
  from update_student_frame [OF h1 h2 h3] h1 h2 h3 show ?thesis by simp
qed

section \<open>Identifiers\<close>

subsection \<open>Reading back what the format writes\<close>

lemma of_char_digit_char: "d < 10 \<Longrightarrow> (of_char (digit_char d) :: nat) = 48 + d"
  by (simp add: digit_char_def)

lemma is_digit_digit_char: "d < 10 \<Longrightarrow> is_digit (digit_char d)"
  by (simp add: is_digit_def of_char_digit_char)

lemma digit_val_digit_char: "d < 10 \<Longrightarrow> digit_val (digit_char d) = d"
  by (simp add: digit_val_def of_char_digit_char)

lemma is_digit_zero: "is_digit (CHR ''0'')" and digit_val_zero: "digit_val (CHR ''0'') = 0"
  by (simp_all add: is_digit_def digit_val_def)

lemma is_digit_not_special:
  "is_digit c \<Longrightarrow> c \<noteq> CHR ''_'' \<and> c \<noteq> CHR ''-'' \<and> c \<noteq> CHR ''+'' \<and> \<not> is_space c"
  by (auto simp: is_digit_def is_space_def Let_def)

lemma str_nat_digits: "list_all is_digit (str_nat n)"
  by (induction n rule: str_nat.induct) (subst str_nat.simps, auto simp: is_digit_digit_char)

lemma str_nat_nonempty: "str_nat n \<noteq> []"
  by (subst str_nat.simps) simp

lemma read_digits_digits:
  "ds \<noteq> [] \<Longrightarrow> list_all is_digit ds \<Longrightarrow> read_digits acc ds = Some (digits_value acc ds)"
proof (induction acc ds rule: read_digits.induct)
  case (1 acc)
  then show ?case by simp
next
  case (2 acc c)
  then show ?case by (simp add: digits_value_def)
next
  case (3 acc c d ds)
  from 3(4) have c: "is_digit c" and d: "is_digit d" and ds: "list_all is_digit (d # ds)" by simp_all
  from d have "d \<noteq> CHR ''_''" using is_digit_not_special by blast
  with 3(2) [OF c this _ ds] c show ?case by (simp add: digits_value_def)
qed

lemma digits_value_str_nat: "digits_value 0 (str_nat n) = n"
proof (induction n rule: str_nat.induct)
  case (1 n)
  show ?case
  proof (cases "n < 10")
    case True
    then show ?thesis by (subst str_nat.simps) (simp add: digits_value_def digit_val_digit_char)
  next
    case False
    with 1 have "digits_value 0 (str_nat (n div 10)) = n div 10" by simp
    with False show ?thesis
      by (subst str_nat.simps) (simp add: digits_value_def digit_val_digit_char)
  qed
qed

lemma digits_value_zeros: "digits_value 0 (replicate k (CHR ''0'') @ ds) = digits_value 0 ds"
  by (induction k) (simp_all add: digits_value_def digit_val_zero)

lemma zfill_digits: "list_all is_digit ds \<Longrightarrow> list_all is_digit (zfill w ds)"
  by (auto simp: zfill_def list_all_iff is_digit_zero)

lemma read_digits_zfill_str_nat: "read_digits 0 (zfill w (str_nat n)) = Some n"
proof -
  have "zfill w (str_nat n) \<noteq> []" by (simp add: zfill_def str_nat_nonempty)
  then have "read_digits 0 (zfill w (str_nat n)) = Some (digits_value 0 (zfill w (str_nat n)))"
    by (rule read_digits_digits) (simp add: zfill_digits str_nat_digits)
  then show ?thesis by (simp add: zfill_def digits_value_zeros digits_value_str_nat)
qed

lemma strip_no_space: "list_all (\<lambda>c. \<not> is_space c) s \<Longrightarrow> strip s = s"
proof -
  assume a: "list_all (\<lambda>c. \<not> is_space c) s"
  then have "dropWhile is_space s = s" by (cases s) auto
  moreover from a have "dropWhile is_space (rev s) = rev s"
    by (cases "rev s") (auto simp: list_all_iff dest!: arg_cong [where f = set])
  ultimately show ?thesis by (simp add: strip_def)
qed

lemma py_int_format_03d: "py_int (format_03d n) = Some n"
proof (cases "n < 0")
  case True
  let ?ds = "zfill 2 (str_nat (nat (- n)))"
  have dig: "list_all is_digit ?ds" by (simp add: zfill_digits str_nat_digits)
  then have "list_all (\<lambda>c. \<not> is_space c) (CHR ''-'' # ?ds)"
    using is_digit_not_special by (auto simp: list_all_iff is_space_def)
  then have "strip (CHR ''-'' # ?ds) = CHR ''-'' # ?ds" by (rule strip_no_space)
  with True show ?thesis
    by (simp add: py_int_def format_03d_def read_digits_zfill_str_nat)
next
  case False
  let ?ds = "zfill 3 (str_nat (nat n))"
  have dig: "list_all is_digit ?ds" by (simp add: zfill_digits str_nat_digits)
  have ne: "?ds \<noteq> []" by (simp add: zfill_def str_nat_nonempty)
  then obtain c cs where cs: "?ds = c # cs" by (cases ?ds) auto
  with dig have c: "is_digit c" by simp
  from dig have "list_all (\<lambda>c. \<not> is_space c) ?ds"
    using is_digit_not_special by (auto simp: list_all_iff)
  then have "strip ?ds = ?ds" by (rule strip_no_space)
  moreover from c have "c \<noteq> CHR ''-''" "c \<noteq> CHR ''+''" using is_digit_not_special by blast+
  moreover have "read_digits 0 ?ds = Some (nat n)" by (rule read_digits_zfill_str_nat)
  ultimately show ?thesis using False cs
    by (simp add: py_int_def format_03d_def)
qed

subsection \<open>What \<open>generate_id\<close> returns\<close>

lemma max_list_Max: "ids \<noteq> [] \<Longrightarrow> max_list ids = Max (set ids)"
  by (induction ids rule: max_list.induct) (auto simp: max_def)


lemma set_map_filter_eq: "set (List.map_filter f xs) = {y. \<exists>x \<in> set xs. f x = Some y}"
  by (induction xs) (auto split: option.splits)

lemma set_present_suffixes:
  "set (present_suffixes st) = {i. \<exists>k \<in> set (dict_keys st). startswith k ''STU'' \<and> suffix_of k = Some i}"
  by (auto simp: present_suffixes_def set_map_filter_eq split: if_splits)

lemma id_numbers_Inr:
  "list_all (\<lambda>k. startswith k ''STU'' \<longrightarrow> suffix_of k \<noteq> None) keys \<Longrightarrow>
   id_numbers keys = Inr (List.map_filter (\<lambda>k. if startswith k ''STU'' then suffix_of k else None) keys)"
  by (induction keys) (auto simp: suffix_of_def)

lemma id_numbers_Inl:
  "\<not> list_all (\<lambda>k. startswith k ''STU'' \<longrightarrow> suffix_of k \<noteq> None) keys \<Longrightarrow>
   id_numbers keys = Inl ValueError"
  by (induction keys) (auto simp: suffix_of_def split: option.splits sum.splits)

lemma startswith_stu_id: "startswith (stu_id n) ''STU''"
  by (simp add: startswith_def stu_id_def)

lemma suffix_of_stu_id: "suffix_of (stu_id n) = Some n"
  by (simp add: suffix_of_def stu_id_def py_int_format_03d)

lemma generate_id_empty: "generate_id [] = Inr (stu_id 1)"
  by code_simp

lemma generate_id_Inr:
  "suffixes_numeric st \<Longrightarrow> generate_id st = Inr (stu_id (next_number st))"
proof (cases "st = []")
  case True
  have "next_number [] = 1" by (simp add: next_number_def present_suffixes_def dict_keys_def)
  with True show ?thesis by (simp only: generate_id_empty)
next
  case False
  assume "suffixes_numeric st"
  then have "id_numbers (dict_keys st) = Inr (present_suffixes st)"
    unfolding suffixes_numeric_def present_suffixes_def by (rule id_numbers_Inr)
  with False show ?thesis
    by (simp add: generate_id_def next_number_def max_list_Max stu_id_def)
qed

lemma generate_id_Inl:
  "\<not> suffixes_numeric st \<Longrightarrow> generate_id st = Inl ValueError"
proof -
  assume a: "\<not> suffixes_numeric st"
  then have ne: "st \<noteq> []" by (auto simp: suffixes_numeric_def dict_keys_def)
  from a have "id_numbers (dict_keys st) = Inl ValueError"
    unfolding suffixes_numeric_def by (rule id_numbers_Inl)
  with ne show ?thesis by (simp add: generate_id_def)
qed

lemma next_number_greater: "i \<in> set (present_suffixes st) \<Longrightarrow> i < next_number st"
proof -
  assume i: "i \<in> set (present_suffixes st)"
  then have "present_suffixes st \<noteq> []" by auto
  moreover from i have "i \<le> Max (set (present_suffixes st))" by simp
  ultimately show ?thesis by (simp add: next_number_def)
qed

lemma generate_id_fresh:
  assumes "generate_id st = Inr sid"
  shows "sid \<notin> set (dict_keys st)"
proof
  assume mem: "sid \<in> set (dict_keys st)"
  have num: "suffixes_numeric st"
    using assms generate_id_Inl by (cases "suffixes_numeric st") auto
  with assms have sid: "sid = stu_id (next_number st)"
    by (simp add: generate_id_Inr)
  from mem have "next_number st \<in> set (present_suffixes st)"
    unfolding set_present_suffixes sid using startswith_stu_id suffix_of_stu_id by blast
  from next_number_greater [OF this] show False by simp
qed

section \<open>Saving and loading\<close>

text \<open>What the scanner reads back from the text that the encoder writes.\<close>

subsection \<open>Strings and numbers\<close>

lemma char_eq_of_char: "c = d \<longleftrightarrow> (of_char c :: nat) = of_char d"
  by (metis char_of_char)

lemma hex_val_hex_char: "d < 16 \<Longrightarrow> hex_val (hex_char d) = Some d"
  by (auto simp: hex_val_def hex_char_def Let_def)

lemma of_char_less_256: "(of_char c :: nat) < 256"
  by (metis of_char_mod_256 mod_less_divisor zero_less_numeral)

lemma scanstring_json_escape:
  "scanstring (json_escape c @ tail) =
     (case scanstring tail of None \<Rightarrow> None | Some (str, rest) \<Rightarrow> Some (c # str, rest))"
proof -
  let ?n = "of_char c :: nat"
  have n: "?n < 256" by (rule of_char_less_256)
  consider "?n = 34" | "?n = 92" | "?n = 10" | "?n = 13" | "?n = 9" | "?n = 8" | "?n = 12"
    | "32 \<le> ?n" "?n \<le> 126" "?n \<noteq> 34" "?n \<noteq> 92"
    | "?n < 32 \<or> 126 < ?n" "?n \<noteq> 10" "?n \<noteq> 13" "?n \<noteq> 9" "?n \<noteq> 8" "?n \<noteq> 12"
    by linarith
  then show ?thesis
  proof cases
    case 8
    then have "c \<noteq> CHR 0x22" "c \<noteq> CHR 0x5C" by (auto simp: char_eq_of_char)
    with 8 show ?thesis by (auto simp: json_escape_def Let_def split: option.splits)
  next
    case 9
    then have esc: "json_escape c = [CHR 0x5C, CHR ''u'', CHR ''0'', CHR ''0'',
        hex_char (?n div 16), hex_char (?n mod 16)]"
      by (auto simp: json_escape_def Let_def)
    from n have "?n div 16 < 16" by arith
    then have "hex4 [CHR ''0'', CHR ''0'', hex_char (?n div 16), hex_char (?n mod 16)] = Some ?n"
      by (simp add: hex_val_hex_char) (simp add: hex_val_def)
    with n show ?thesis by (simp add: esc del: hex4.simps split: option.splits)
  qed (auto simp: json_escape_def Let_def backslash_def char_eq_of_char split: option.splits)
qed


lemma scanstring_json_string:
  "scanstring (concat (map json_escape s) @ CHR 0x22 # rest) = Some (s, rest)"
  by (induction s) (simp_all add: scanstring_json_escape)

lemma str_nat_hd:
  "0 < n \<Longrightarrow> is_digit (hd (str_nat n)) \<and> hd (str_nat n) \<noteq> CHR ''0''"
proof (induction n rule: str_nat.induct)
  case (1 n)
  show ?case
  proof (cases "n < 10")
    case True
    with 1(2) have "(of_char (digit_char n) :: nat) \<noteq> 48" by (simp add: of_char_digit_char)
    then have "digit_char n \<noteq> CHR ''0''" by (auto simp: char_eq_of_char)
    with True show ?thesis by (subst (1 2) str_nat.simps) (simp add: is_digit_digit_char)
  next
    case False
    then have "0 < n div 10" by simp
    with 1(1) False have "is_digit (hd (str_nat (n div 10))) \<and> hd (str_nat (n div 10)) \<noteq> CHR ''0''"
      by simp
    with False show ?thesis by (subst (1 2) str_nat.simps) (simp add: str_nat_nonempty)
  qed
qed

lemma str_nat_zero: "str_nat 0 = ''0''"
  by code_simp

lemma take_digits_append:
  "list_all is_digit ds \<Longrightarrow> ends_number rest \<Longrightarrow> take_digits (ds @ rest) = (ds, rest)"
proof -
  assume ds: "list_all is_digit ds" and r: "ends_number rest"
  from r have "takeWhile is_digit rest = []" "dropWhile is_digit rest = rest"
    by (cases rest; simp add: ends_number_def)+
  with ds show ?thesis
    by (simp add: take_digits_def list_all_iff takeWhile_append2 dropWhile_append2)
qed

lemma ends_number_parts: "ends_number rest \<Longrightarrow> frac_part rest = ([], rest) \<and> exp_part rest = ([], rest)"
  by (cases rest) (auto simp: ends_number_def frac_part_def exp_part_def split: list.splits)

lemma int_part_str_nat:
  "ends_number rest \<Longrightarrow> int_part (str_nat n @ rest) = Some (str_nat n, rest)"
proof (cases "n = 0")
  case True
  then show ?thesis by (simp add: str_nat_zero int_part_def)
next
  case False
  assume r: "ends_number rest"
  obtain c ds where cd: "str_nat n = c # ds" using str_nat_nonempty [of n] by (cases "str_nat n") auto
  from False str_nat_hd [of n] cd have c: "is_digit c" "c \<noteq> CHR ''0''" by simp_all
  from str_nat_digits [of n] cd have "list_all is_digit ds" by simp
  from take_digits_append [OF this r] c show ?thesis by (simp add: cd int_part_def)
qed

lemma match_number_str_int:
  assumes "ends_number rest"
  shows "match_number (str_int i @ rest) = Some (JInt i, rest)"
proof (cases "i < 0")
  case True
  then show ?thesis
    by (simp add: match_number_def str_int_def int_part_str_nat [OF assms]
        ends_number_parts [OF assms] digits_value_str_nat)
next
  case False
  obtain c ds where cd: "str_nat (nat i) = c # ds"
    using str_nat_nonempty [of "nat i"] by (cases "str_nat (nat i)") auto
  from str_nat_digits [of "nat i"] cd have "is_digit c" by simp
  then have "c \<noteq> CHR ''-''" using is_digit_not_special by blast
  then have "(case str_nat (nat i) @ rest of [] \<Rightarrow> ([], str_nat (nat i) @ rest)
      | c # cs \<Rightarrow> if c = CHR ''-'' then ([c], cs) else ([], str_nat (nat i) @ rest))
      = ([], str_nat (nat i) @ rest)" by (simp add: cd)
  with False show ?thesis
    by (simp add: match_number_def str_int_def int_part_str_nat [OF assms]
        ends_number_parts [OF assms] digits_value_str_nat)
qed


lemma hd_str_int: "\<exists>c cs. str_int i = c # cs \<and> (is_digit c \<or> c = CHR ''-'' \<and> cs \<noteq> [] \<and> is_digit (hd cs))"
proof (cases "i < 0")
  case True
  obtain c ds where cd: "str_nat (nat (- i)) = c # ds"
    using str_nat_nonempty [of "nat (- i)"] by (cases "str_nat (nat (- i))") auto
  from str_nat_digits [of "nat (- i)"] cd have "is_digit c" by simp
  with True cd show ?thesis by (simp add: str_int_def)
next
  case False
  obtain c ds where cd: "str_nat (nat i) = c # ds"
    using str_nat_nonempty [of "nat i"] by (cases "str_nat (nat i)") auto
  from str_nat_digits [of "nat i"] cd have "is_digit c" by simp
  with False cd show ?thesis by (simp add: str_int_def)
qed

lemma is_digit_not_letter:
  "is_digit c \<Longrightarrow> c \<noteq> CHR 0x22 \<and> c \<noteq> CHR ''{'' \<and> c \<noteq> CHR ''['' \<and> c \<noteq> CHR ''n'' \<and> c \<noteq> CHR ''t''
     \<and> c \<noteq> CHR ''f'' \<and> c \<noteq> CHR ''N'' \<and> c \<noteq> CHR ''I'' \<and> \<not> is_json_ws c"
  by (auto simp: is_digit_def is_json_ws_def Let_def)

lemma scan_once_json_value:
  assumes "ends_number rest"
  shows "scan_once (Suc n) (json_value v @ rest) = Inr (value_object v, rest)"
proof (cases v)
  case PNone
  then show ?thesis by simp
next
  case (PBool b)
  then show ?thesis by simp
next
  case (PStr s)
  then show ?thesis by (simp add: json_string_def scanstring_json_string)
next
  case (PInt i)
  from hd_str_int [of i] obtain c cs where cs: "str_int i = c # cs"
    and c: "is_digit c \<or> c = CHR ''-'' \<and> cs \<noteq> [] \<and> is_digit (hd cs)" by blast
  have m: "match_number (c # cs @ rest) = Some (JInt i, rest)"
    using match_number_str_int [OF assms, of i] by (simp add: cs)
  from c show ?thesis
  proof
    assume "is_digit c"
    from is_digit_not_letter [OF this] is_digit_not_special [OF this] m
    show ?thesis by (simp add: PInt cs)
  next
    assume a: "c = CHR ''-'' \<and> cs \<noteq> [] \<and> is_digit (hd cs)"
    then obtain d ds where ds: "cs = d # ds" and d: "is_digit d" by (cases cs) auto
    from is_digit_not_letter [OF d] a m ds show ?thesis by (simp add: PInt cs)
  qed
qed

lemma not_ws_minus: "\<not> is_json_ws (CHR ''-'')"
  by (simp add: is_json_ws_def)

lemma json_value_start: "json_value v \<noteq> [] \<and> \<not> is_json_ws (hd (json_value v))"
proof (cases v)
  case PNone
  then show ?thesis by (simp add: is_json_ws_def)
next
  case (PBool b)
  then show ?thesis by (simp add: is_json_ws_def)
next
  case (PStr s)
  then show ?thesis by (simp add: is_json_ws_def json_string_def)
next
  case (PInt i)
  from hd_str_int [of i] obtain c cs where cs: "str_int i = c # cs"
    and c: "is_digit c \<or> c = CHR ''-'' \<and> cs \<noteq> [] \<and> is_digit (hd cs)" by blast
  have "\<not> is_json_ws c"
  proof (cases "is_digit c")
    case True
    then show ?thesis using is_digit_not_letter by blast
  next
    case False
    with c have "c = CHR ''-''" by simp
    then show ?thesis by (simp only: not_ws_minus not_False_eq_True)
  qed
  with PInt cs show ?thesis by simp
qed

lemma skip_ws_start: "s \<noteq> [] \<Longrightarrow> \<not> is_json_ws (hd s) \<Longrightarrow> skip_ws (s @ t) = s @ t"
  by (cases s) (simp_all add: skip_ws_def)

lemma skip_ws_newline_indent: "skip_ws (newline_indent l @ s) = skip_ws s"
  by (simp add: skip_ws_def newline_indent_def is_json_ws_def dropWhile_append)

lemma skip_ws_blank: "skip_ws (CHR '' '' # s) = skip_ws s"
  by (simp add: skip_ws_def is_json_ws_def)

lemma skip_ws_char: "\<not> is_json_ws c \<Longrightarrow> skip_ws (c # s) = c # s"
  by (simp add: skip_ws_def)

lemma ends_number_newline_indent: "ends_number (newline_indent l @ s)"
  by (simp add: ends_number_def newline_indent_def is_digit_def)

lemma ends_number_comma: "ends_number (CHR '','' # s)"
  by (simp add: ends_number_def is_digit_def)


lemma join_items_Cons:
  "join_items sep (x # xs) = x @ (if xs = [] then [] else sep @ join_items sep xs)"
  by (cases xs) simp_all

lemma dict_of_pairs_distinct:
  "distinct (map fst ps) \<Longrightarrow> dict_of_pairs ps = ps"
proof -
  have "distinct (map fst (acc @ ps)) \<Longrightarrow> foldl (\<lambda>d (k, v). dict_set k v d) acc ps = acc @ ps"
    for acc :: "('a \<times> 'b) list"
  proof (induction ps arbitrary: acc)
    case Nil
    then show ?case by simp
  next
    case (Cons p ps)
    obtain k v where p: "p = (k, v)" by (cases p)
    from Cons.prems p have "k \<notin> fst ` set acc" by auto
    then have "map_of acc k = None" by (simp add: map_of_eq_None_iff)
    then have "dict_set k v acc = acc @ [(k, v)]" by (rule dict_set_absent)
    with Cons.IH [of "acc @ [(k, v)]"] Cons.prems p show ?case by simp
  qed
  from this [of "[]" ] show "distinct (map fst ps) \<Longrightarrow> dict_of_pairs ps = ps"
    by (simp add: dict_of_pairs_def)
qed

text \<open>
  The loop over the members of an object, on the text that \<open>json_dict\<close> writes for a dict
  that is not empty, after the opening quote of the first key.
\<close>

lemma object_items_encoded:
  assumes dec: "\<And>k v n rest. (k, v) \<in> set d \<Longrightarrow> ends_number rest \<Longrightarrow> length (enc v @ rest) < n \<Longrightarrow>
                  scan_once n (enc v @ rest) = Inr (obj v, rest)"
      and start: "\<And>k v. (k, v) \<in> set d \<Longrightarrow> enc v \<noteq> [] \<and> \<not> is_json_ws (hd (enc v))"
      and ne: "d \<noteq> []"
      and len: "length (join_items (CHR '','' # newline_indent (Suc l))
                   (map (\<lambda>(k, v). json_string k @ '': '' @ enc v) d) @ newline_indent l @ CHR ''}'' # rest) \<le> n"
  shows "object_items n pairs
           (tl (join_items (CHR '','' # newline_indent (Suc l))
                   (map (\<lambda>(k, v). json_string k @ '': '' @ enc v) d)) @ newline_indent l @ CHR ''}'' # rest)
         = Inr (JObj (dict_of_pairs (pairs @ map (\<lambda>(k, v). (k, obj v)) d)), rest)"
  using dec start ne len
proof (induction d arbitrary: pairs n)
  case Nil
  then show ?case by simp
next
  case (Cons x d)
  obtain k v where x: "x = (k, v)" by (cases x)
  let ?sep = "CHR '','' # newline_indent (Suc l)"
  let ?item = "\<lambda>(k, v). json_string k @ '': '' @ enc v"
  let ?tail = "(if d = [] then [] else ?sep @ join_items ?sep (map ?item d)) @ newline_indent l @ CHR ''}'' # rest"
  have shape: "tl (join_items ?sep (map ?item (x # d))) @ newline_indent l @ CHR ''}'' # rest
     = concat (map json_escape k) @ CHR 0x22 # CHR '':'' # CHR '' '' # enc v @ ?tail"
    by (simp add: x join_items_Cons json_string_def)
  from Cons.prems(4) have len: "length (enc v @ ?tail) + 3 < n"
    by (simp add: x join_items_Cons json_string_def split: if_splits)
  then obtain n' where n: "n = Suc n'" by (cases n) auto
  from Cons.prems(2) [of k v] have st: "enc v \<noteq> []" "\<not> is_json_ws (hd (enc v))" by (simp_all add: x)
  have en: "ends_number ?tail"
    by (simp add: ends_number_newline_indent ends_number_comma)
  have val: "scan_once n' (enc v @ ?tail) = Inr (obj v, ?tail)"
    using len n by (intro Cons.prems(1) [of k v] en) (simp_all add: x)
  have colon: "\<not> is_json_ws (CHR '':'')" by (simp add: is_json_ws_def)
  have head: "object_items n pairs (tl (join_items ?sep (map ?item (x # d))) @ newline_indent l @ CHR ''}'' # rest)
     = (case skip_ws ?tail of
          [] \<Rightarrow> Inl JSONDecodeError
        | d' # r4 \<Rightarrow>
            if d' = CHR ''}'' then Inr (JObj (dict_of_pairs (pairs @ [(k, obj v)])), r4)
            else if d' = CHR '','' then
              (case skip_ws r4 of
                 [] \<Rightarrow> Inl JSONDecodeError
               | q # r5 \<Rightarrow>
                   if q = CHR 0x22 then object_items n' (pairs @ [(k, obj v)]) r5
                   else Inl JSONDecodeError)
            else Inl JSONDecodeError)"
    unfolding shape n
    by (simp add: scanstring_json_string skip_ws_char [OF colon] skip_ws_blank
        skip_ws_start [OF st] val del: scan_once.simps)
  show ?case
  proof (cases "d = []")
    case True
    have brace: "\<not> is_json_ws (CHR ''}'')" by (simp add: is_json_ws_def)
    from True show ?thesis
      unfolding head by (simp add: skip_ws_newline_indent skip_ws_char [OF brace] x)
  next
    case False
    then obtain y d' where d: "d = y # d'" by (cases d) auto
    obtain k2 v2 where y: "y = (k2, v2)" by (cases y)
    have comma: "\<not> is_json_ws (CHR '','')" and quote: "\<not> is_json_ws (CHR 0x22)"
      by (simp_all add: is_json_ws_def)
    have jq: "join_items ?sep (map ?item d) = CHR 0x22 # tl (join_items ?sep (map ?item d))"
      by (simp add: d y join_items_Cons json_string_def)
    have len': "length (join_items ?sep (map ?item d) @ newline_indent l @ CHR ''}'' # rest) \<le> n'"
      using len n False by simp
    have ih: "object_items n' (pairs @ [(k, obj v)])
                (tl (join_items ?sep (map ?item d)) @ newline_indent l @ CHR ''}'' # rest)
         = Inr (JObj (dict_of_pairs ((pairs @ [(k, obj v)]) @ map (\<lambda>(k, v). (k, obj v)) d)), rest)"
    proof (rule Cons.IH [OF _ _ False len'])
      show "scan_once n (enc v @ rest) = Inr (obj v, rest)"
        if "(k, v) \<in> set d" "ends_number rest" "length (enc v @ rest) < n" for k v n rest
        using that by (intro Cons.prems(1) [where k = k]) simp_all
      show "enc v \<noteq> [] \<and> \<not> is_json_ws (hd (enc v))" if "(k, v) \<in> set d" for k v
        using that by (intro Cons.prems(2) [where k = k]) simp
    qed
    have "skip_ws ?tail = CHR '','' # newline_indent (Suc l) @ join_items ?sep (map ?item d)
             @ newline_indent l @ CHR ''}'' # rest"
      using False by (simp add: skip_ws_char [OF comma])
    moreover have "skip_ws (newline_indent (Suc l) @ join_items ?sep (map ?item d)
             @ newline_indent l @ CHR ''}'' # rest)
        = CHR 0x22 # tl (join_items ?sep (map ?item d)) @ newline_indent l @ CHR ''}'' # rest"
      by (subst skip_ws_newline_indent, subst jq) (simp add: skip_ws_char [OF quote])
    ultimately show ?thesis
      unfolding head using ih by (simp add: x)
  qed
qed


lemma scan_once_json_dict:
  assumes dec: "\<And>k v n rest. (k, v) \<in> set d \<Longrightarrow> ends_number rest \<Longrightarrow> length (enc v @ rest) < n \<Longrightarrow>
                  scan_once n (enc v @ rest) = Inr (obj v, rest)"
      and start: "\<And>k v. (k, v) \<in> set d \<Longrightarrow> enc v \<noteq> [] \<and> \<not> is_json_ws (hd (enc v))"
      and len: "length (json_dict enc l d @ rest) < n"
  shows "scan_once n (json_dict enc l d @ rest)
         = Inr (JObj (dict_of_pairs (map (\<lambda>(k, v). (k, obj v)) d)), rest)"
proof (cases "d = []")
  case True
  from len obtain n' where n: "n = Suc n'" by (cases n) auto
  have brace: "\<not> is_json_ws (CHR ''}'')" by (simp add: is_json_ws_def)
  from True show ?thesis
    by (simp add: n json_dict_def skip_ws_char [OF brace] dict_of_pairs_def)
next
  case False
  from len obtain n' where n: "n = Suc n'" by (cases n) auto
  let ?sep = "CHR '','' # newline_indent (Suc l)"
  let ?item = "\<lambda>(k, v). json_string k @ '': '' @ enc v"
  from False obtain y d' where d: "d = y # d'" by (cases d) auto
  obtain k2 v2 where y: "y = (k2, v2)" by (cases y)
  have quote: "\<not> is_json_ws (CHR 0x22)" by (simp add: is_json_ws_def)
  have jq: "join_items ?sep (map ?item d) = CHR 0x22 # tl (join_items ?sep (map ?item d))"
    by (simp add: d y join_items_Cons json_string_def)
  have shape: "json_dict enc l d @ rest
      = CHR ''{'' # newline_indent (Suc l) @ join_items ?sep (map ?item d)
          @ newline_indent l @ CHR ''}'' # rest"
    using False by (simp add: json_dict_def)
  have sk: "skip_ws (newline_indent (Suc l) @ join_items ?sep (map ?item d)
             @ newline_indent l @ CHR ''}'' # rest)
        = CHR 0x22 # tl (join_items ?sep (map ?item d)) @ newline_indent l @ CHR ''}'' # rest"
    by (subst skip_ws_newline_indent, subst jq) (simp add: skip_ws_char [OF quote])
  have len': "length (join_items ?sep (map ?item d) @ newline_indent l @ CHR ''}'' # rest) \<le> n'"
    using len unfolding shape n by simp
  have items: "object_items n' []
           (tl (join_items ?sep (map ?item d)) @ newline_indent l @ CHR ''}'' # rest)
         = Inr (JObj (dict_of_pairs ([] @ map (\<lambda>(k, v). (k, obj v)) d)), rest)"
    using dec start False len' by (rule object_items_encoded)
  show ?thesis
    unfolding shape n using sk items by (simp del: object_items.simps)
qed

lemma json_dict_start: "json_dict enc l d \<noteq> [] \<and> \<not> is_json_ws (hd (json_dict enc l d))"
  by (simp add: json_dict_def is_json_ws_def)

lemma scan_once_student:
  assumes "distinct (dict_keys s)" and "length (json_dict json_value l s @ rest) < n"
  shows "scan_once n (json_dict json_value l s @ rest) = Inr (student_object s, rest)"
proof -
  have "scan_once n (json_dict json_value l s @ rest)
         = Inr (JObj (dict_of_pairs (map (\<lambda>(k, v). (k, value_object v)) s)), rest)"
  proof (rule scan_once_json_dict [OF _ _ assms(2)])
    show "scan_once n (json_value v @ rest) = Inr (value_object v, rest)"
      if "ends_number rest" "length (json_value v @ rest) < n" for v n rest
    proof -
      from that(2) obtain n' where "n = Suc n'" by (cases n) auto
      with scan_once_json_value [OF that(1)] show ?thesis by simp
    qed
    show "json_value v \<noteq> [] \<and> \<not> is_json_ws (hd (json_value v))" for v
      by (rule json_value_start)
  qed
  moreover have "map fst (map (\<lambda>(k, v). (k, value_object v)) s) = dict_keys s"
    by (simp add: dict_keys_def comp_def case_prod_beta)
  ultimately show ?thesis
    using assms(1) by (simp add: student_object_def dict_of_pairs_distinct)
qed

lemma skip_ws_Nil: "skip_ws [] = []"
  by (simp add: skip_ws_def)

lemma json_loads_json_dump:
  assumes keys: "distinct (dict_keys st)"
      and fields: "list_all (\<lambda>s. distinct (dict_keys s)) (dict_values st)"
  shows "json_loads (json_dump st) = Inr (store_object st)"
proof -
  have brace: "\<not> is_json_ws (CHR ''{'')" by (simp add: is_json_ws_def)
  have sk: "skip_ws (json_dump st) = json_dump st"
    using json_dict_start [of "json_dict json_value 1" 0 st] skip_ws_start [of "json_dump st" "[]"]
    by (simp add: json_dump_def)
  have "scan_once (Suc (length (json_dump st))) (json_dict (json_dict json_value 1) 0 st @ [])
         = Inr (JObj (dict_of_pairs (map (\<lambda>(k, s). (k, student_object s)) st)), [])"
  proof (rule scan_once_json_dict)
    show "scan_once n (json_dict json_value 1 s @ rest) = Inr (student_object s, rest)"
      if "(k, s) \<in> set st" "ends_number rest" "length (json_dict json_value 1 s @ rest) < n"
      for k s n rest
    proof -
      from that(1) fields have "distinct (dict_keys s)"
        by (auto simp: list_all_iff dict_values_def)
      then show ?thesis using that(3) by (rule scan_once_student)
    qed
    show "json_dict json_value 1 s \<noteq> [] \<and> \<not> is_json_ws (hd (json_dict json_value 1 s))" for s
      by (rule json_dict_start)
    show "length (json_dict (json_dict json_value 1) 0 st @ []) < Suc (length (json_dump st))"
      by (simp add: json_dump_def)
  qed
  moreover have "map fst (map (\<lambda>(k, s). (k, student_object s)) st) = dict_keys st"
    by (simp add: dict_keys_def comp_def case_prod_beta)
  ultimately show ?thesis
    using keys sk
    by (simp add: json_loads_def store_object_def dict_of_pairs_distinct json_dump_def skip_ws_Nil)
qed

section \<open>Identifiers, continued\<close>

subsection \<open>Adding a record\<close>








subsection \<open>Adding records to the empty store\<close>









section \<open>Identifiers and keys\<close>

lemma ids_consistent_iff:
  "ids_consistent st \<longleftrightarrow>
     distinct (dict_keys st) \<and> (\<forall>(k, s) \<in> set st. map_of s ''id'' = Some (PStr k))"
  by (simp add: ids_consistent_def list_all_iff)

lemma ids_consistent_lookup:
  "ids_consistent st \<Longrightarrow> map_of st k = Some s \<Longrightarrow> map_of s ''id'' = Some (PStr k)"
  by (auto simp: ids_consistent_iff dest: map_of_SomeD)

lemma add_student_consistent:
  assumes inv: "ids_consistent (students m)"
      and add: "add_student m name age grade email phone now1 now2 = Inr (sid, m')"
  shows "ids_consistent (students m') \<and> sid \<notin> set (dict_keys (students m))
       \<and> (\<forall>k s. map_of (students m) k = Some s \<longrightarrow> map_of (students m') k = Some s)"
proof -
  from add have gen: "generate_id (students m) = Inr sid"
    by (auto simp: add_student_def split: sum.splits)
  then have fresh: "sid \<notin> set (dict_keys (students m))" by (rule generate_id_fresh)
  then have none: "map_of (students m) sid = None" by (simp add: map_of_eq_None_keys)
  let ?s = "[(''id'', PStr sid), (''name'', name), (''age'', age), (''grade'', grade),
             (''email'', email), (''phone'', phone),
             (''created_at'', PStr now1), (''updated_at'', PStr now2)]"
  from add gen have m': "students m' = students m @ [(sid, ?s)]"
    by (auto simp: add_student_def students_save_records dict_set_absent [OF none])
  have "ids_consistent (students m')"
    using inv fresh by (auto simp: m' ids_consistent_iff dict_keys_def)
  moreover have "map_of (students m') k = Some s" if "map_of (students m) k = Some s" for k s
    using that by (simp add: m' map_add_Some_iff)
  ultimately show ?thesis using fresh by blast
qed

lemma update_student_consistent:
  assumes inv: "ids_consistent (students m)"
      and upd: "update_student m sid kwargs now = (b, m')"
  shows "ids_consistent (students m')"
proof (cases "map_of (students m) sid")
  case None
  with upd show ?thesis using inv by (simp add: update_student_def)
next
  case (Some s)
  let ?s' = "dict_set ''updated_at'' (PStr now) (apply_fields s kwargs)"
  from upd Some have m': "students m' = dict_set sid ?s' (students m)"
    by (auto simp: update_student_present students_save_records)
  have id': "map_of ?s' ''id'' = Some (PStr sid)"
    using ids_consistent_lookup [OF inv Some]
    by (simp add: map_of_dict_set map_of_apply_fields_not_valid valid_fields_def)
  have keys: "dict_keys (students m') = dict_keys (students m)"
    using Some by (simp add: m' dict_keys_dict_set_present)
  have "map_of s'' ''id'' = Some (PStr k)" if "(k, s'') \<in> set (students m')" for k s''
  proof -
    from that set_dict_set_subset [of sid ?s' "students m"]
    have "(k, s'') = (sid, ?s') \<or> (k, s'') \<in> set (students m)" by (auto simp: m')
    with id' inv show ?thesis by (auto simp: ids_consistent_iff)
  qed
  with inv keys show ?thesis by (auto simp: ids_consistent_iff)
qed

lemma delete_student_consistent:
  assumes inv: "ids_consistent (students m)"
      and del: "delete_student m sid = (b, m')"
  shows "ids_consistent (students m')"
proof (cases "dict_has sid (students m)")
  case False
  with del inv show ?thesis by (simp add: delete_student_def)
next
  case True
  with del have m': "students m' = dict_del sid (students m)"
    by (auto simp: delete_student_def students_save_records)
  from inv have d: "distinct (dict_keys (students m))" by (simp add: ids_consistent_iff)
  from inv set_dict_del_subset [of sid "students m"] show ?thesis
    by (auto simp: m' ids_consistent_iff dict_keys_dict_del [OF d] distinct_removeAll)
qed

lemma step_consistent:
  assumes inv: "ids_consistent (students m)" and st: "step m c = (r, m')"
  shows "ids_consistent (students m')"
proof (cases c)
  case (Add name age grade email phone now1 now2)
  show ?thesis
  proof (cases "add_student m name age grade email phone now1 now2")
    case (Inl e)
    with st Add inv show ?thesis by simp
  next
    case (Inr p)
    obtain sid m1 where p: "p = (sid, m1)" by (cases p)
    with st Add Inr have "m' = m1" by simp
    with add_student_consistent [OF inv Inr [unfolded p]] show ?thesis by simp
  qed
next
  case (Update sid kwargs now)
  with st obtain b where "update_student m sid kwargs now = (b, m')"
    by (auto split: prod.splits)
  with inv show ?thesis by (rule update_student_consistent)
next
  case (Delete sid)
  with st obtain b where "delete_student m sid = (b, m')"
    by (auto split: prod.splits)
  with inv show ?thesis by (rule delete_student_consistent)
qed

lemma run_consistent:
  "ids_consistent (students m) \<Longrightarrow> run m cs = (rs, m') \<Longrightarrow> ids_consistent (students m')"
proof (induction cs arbitrary: m rs m')
  case Nil
  then show ?case by simp
next
  case (Cons c cs)
  obtain r m1 where s: "step m c = (r, m1)" by (cases "step m c")
  obtain rs' m2 where r: "run m1 cs = (rs', m2)" by (cases "run m1 cs")
  from Cons.prems(2) s r have "m' = m2" by simp
  with Cons.IH [OF step_consistent [OF Cons.prems(1) s] r] show ?case by simp
qed

lemma update_student_keeps_id:
  assumes "map_of (students m) sid = Some s"
      and "update_student m sid kwargs now = (b, m')"
      and "map_of (students m') sid = Some s'"
  shows "map_of s' ''id'' = map_of s ''id''"
proof -
  from assms(1,2) have "students m' =
      dict_set sid (dict_set ''updated_at'' (PStr now) (apply_fields s kwargs)) (students m)"
    by (auto simp: update_student_present students_save_records)
  with assms(3) have "s' = dict_set ''updated_at'' (PStr now) (apply_fields s kwargs)"
    by (simp add: map_of_dict_set)
  then show ?thesis
    by (simp add: map_of_dict_set map_of_apply_fields_not_valid valid_fields_def)
qed

text \<open>
  Claim C9. Start from a manager in which every record carries its key in its \<open>id\<close>
  field and no key occurs twice. Every state reached from it by \<open>add_student\<close>,
  \<open>update_student\<close> and \<open>delete_student\<close> has that property, and so has the state
  after one more operation; in particular the keys stay pairwise distinct. A record
  that is in the store before and after the operation has the same \<open>id\<close>, its key.
  An identifier returned by \<open>add_student\<close> was not a key before. \<open>update_student\<close>
  leaves the \<open>id\<close> field alone, also when \<open>id\<close> is among the keyword arguments,
  since \<open>id\<close> is not in the allow-list.
\<close>

theorem ids_consistent_preserved:
  assumes inv: "ids_consistent (students m)"
      and reach: "run m cs = (rs, m1)"
      and st: "step m1 c = (r, m2)"
  shows "ids_consistent (students m1) \<and> ids_consistent (students m2)
    \<and> distinct (dict_keys (students m2))
    \<and> (\<forall>k s s'. map_of (students m1) k = Some s \<and> map_of (students m2) k = Some s' \<longrightarrow>
          map_of s ''id'' = Some (PStr k) \<and> map_of s' ''id'' = Some (PStr k))
    \<and> (\<forall>sid. r = Added sid \<longrightarrow> sid \<notin> set (dict_keys (students m1)))
    \<and> (\<forall>sid kwargs now s s'. c = Update sid kwargs now \<and> map_of (students m1) sid = Some s \<and>
          map_of (students m2) sid = Some s' \<longrightarrow>
          map_of s' ''id'' = map_of s ''id'' \<and>
          map_of (apply_fields s ((''id'', PStr new_id) # kwargs)) ''id'' = map_of s ''id'')"
proof -
  have i1: "ids_consistent (students m1)" using inv reach by (rule run_consistent)
  have i2: "ids_consistent (students m2)" using i1 st by (rule step_consistent)
  then have d: "distinct (dict_keys (students m2))" by (simp add: ids_consistent_iff)
  have same: "map_of s ''id'' = Some (PStr k) \<and> map_of s' ''id'' = Some (PStr k)"
    if "map_of (students m1) k = Some s" "map_of (students m2) k = Some s'" for k s s'
    using that ids_consistent_lookup [OF i1] ids_consistent_lookup [OF i2] by simp
  have fresh: "sid \<notin> set (dict_keys (students m1))" if "r = Added sid" for sid
  proof -
    from that st obtain name age grade email phone now1 now2
      where c: "c = Add name age grade email phone now1 now2"
      by (cases c) (auto split: sum.splits prod.splits)
    with that st have "add_student m1 name age grade email phone now1 now2 = Inr (sid, m2)"
      by (auto split: sum.splits prod.splits)
    from add_student_consistent [OF i1 this] show ?thesis by simp
  qed
  have upd: "map_of s' ''id'' = map_of s ''id'' \<and>
          map_of (apply_fields s ((''id'', PStr new_id) # kwargs)) ''id'' = map_of s ''id''"
    if "c = Update sid kwargs now" "map_of (students m1) sid = Some s"
       "map_of (students m2) sid = Some s'" for sid kwargs now s s'
  proof -
    from that(1) st obtain b where "update_student m1 sid kwargs now = (b, m2)"
      by (auto split: prod.splits)
    from update_student_keeps_id [OF that(2) this that(3)] show ?thesis
      by (simp add: map_of_apply_fields_not_valid valid_fields_def)
  qed
  from i1 i2 d same fresh upd show ?thesis by blast
qed

theorem ids_consistent_preserved_witness:
  "ids_consistent (students sample_manager)
   \<and> ids_consistent (students (snd (run sample_manager
        [Update ''STU002'' [(''id'', PStr ''STU777''), (''grade'', PStr ''C'')] ''2024-02-02 09:30:00'',
         Delete ''STU001''])))
   \<and> ids_consistent (students (snd (step (snd (run sample_manager
        [Update ''STU002'' [(''id'', PStr ''STU777''), (''grade'', PStr ''C'')] ''2024-02-02 09:30:00'',
         Delete ''STU001''])) (add_plain ''Dave'' 12 ''B''))))
   \<and> fst (step (snd (run sample_manager
        [Update ''STU002'' [(''id'', PStr ''STU777''), (''grade'', PStr ''C'')] ''2024-02-02 09:30:00'',
         Delete ''STU001''])) (add_plain ''Dave'' 12 ''B'')) = Added ''STU004''
   \<and> ''STU004'' \<notin> set (dict_keys (students (snd (run sample_manager
        [Update ''STU002'' [(''id'', PStr ''STU777''), (''grade'', PStr ''C'')] ''2024-02-02 09:30:00'',
         Delete ''STU001'']))))"
proof -
  let ?cs = "[Update ''STU002'' [(''id'', PStr ''STU777''), (''grade'', PStr ''C'')] ''2024-02-02 09:30:00'',
         Delete ''STU001'']"
  let ?m1 = "snd (run sample_manager ?cs)"
  let ?c = "add_plain ''Dave'' 12 ''B''"
  have h1: "ids_consistent (students sample_manager)" by code_simp
  have h2: "run sample_manager ?cs = (fst (run sample_manager ?cs), ?m1)" by simp
  have h3: "step ?m1 ?c = (fst (step ?m1 ?c), snd (step ?m1 ?c))" by simp
  have r: "fst (step ?m1 ?c) = Added ''STU004''" by code_simp
  from ids_consistent_preserved [OF h1 h2 h3] h1 r show ?thesis by simp
qed

section \<open>Statistics\<close>












section \<open>The round trip through the backing file\<close>

lemma value_object_inj: "value_object v = value_object w \<longleftrightarrow> v = w"
  by (cases v; cases w) simp_all

lemma student_object_inj: "student_object s = student_object t \<longleftrightarrow> s = t"
proof -
  have "inj (\<lambda>(f :: string, v). (f, value_object v))"
    by (auto simp: inj_on_def value_object_inj)
  then show ?thesis by (auto simp: student_object_def inj_map_eq_map)
qed

lemma store_object_inj: "store_object st = store_object st' \<longleftrightarrow> st = st'"
proof -
  have "inj (\<lambda>(k :: string, s). (k, student_object s))"
    by (auto simp: inj_on_def student_object_inj)
  then show ?thesis by (auto simp: store_object_def inj_map_eq_map)
qed

text \<open>
  Claim C8. Saving and loading is a round trip. For a mapping whose keys are pairwise
  distinct and whose records have pairwise distinct field names (as the keys of any
  Python dict are), \<open>load_records\<close> after \<open>save_records\<close> returns the object of that very
  mapping: the same identifiers in the same order, each with the same fields and the
  same values. No other mapping has that object, so nothing is lost or changed.
\<close>

theorem save_load_round_trip:
  assumes "distinct (dict_keys (students m))"
      and "list_all (\<lambda>s. distinct (dict_keys s)) (dict_values (students m))"
  shows "load_records (save_records m) = Inr (store_object (students m))
       \<and> (store_object st' = store_object (students m)) = (st' = students m)"
  using json_loads_json_dump [OF assms]
  by (simp add: load_records_def save_records_def store_object_inj)

theorem save_load_round_trip_witness:
  "distinct (dict_keys (students tiny_manager))
   \<and> list_all (\<lambda>s. distinct (dict_keys s)) (dict_values (students tiny_manager))
   \<and> load_records (save_records tiny_manager) = Inr (store_object (students tiny_manager))
   \<and> store_object (students tiny_manager) =
       JObj [(''STU001'', JObj [(''id'', JStr ''STU001''),
                                (''name'', JStr [CHR ''A'', CHR 0x22, CHR 0x0A, CHR 0xE9]),
                                (''age'', JInt (- 7)), (''email'', JNull)]),
             (''X'', JObj [])]"
proof -
  have h1: "distinct (dict_keys (students tiny_manager))" by code_simp
  have h2: "list_all (\<lambda>s. distinct (dict_keys s)) (dict_values (students tiny_manager))"
    by code_simp
  have v: "store_object (students tiny_manager) =
       JObj [(''STU001'', JObj [(''id'', JStr ''STU001''),
                                (''name'', JStr [CHR ''A'', CHR 0x22, CHR 0x0A, CHR 0xE9]),
                                (''age'', JInt (- 7)), (''email'', JNull)]),
             (''X'', JObj [])]"
    by code_simp
  from save_load_round_trip [OF h1 h2, of tiny_store]
  have "load_records (save_records tiny_manager) = Inr (store_object (students tiny_manager))"
    by (rule conjunct1)
  with h1 h2 v show ?thesis by simp
qed


end
